theory Spec2Isabelle
  imports Main
begin

section \<open>Triangular peg solitaire: the board, the move enumerator and the search\<close>

text \<open>
  A shallow embedding of \<^verbatim>\<open>Peg_Solitare.py\<close>. Python integers are \<open>int\<close>, Python lists
  are HOL lists, a two-element list \<^verbatim>\<open>[mid, dest]\<close> is a pair and a three-element list
  \<^verbatim>\<open>[origin, mid, dest]\<close> is a triple. Indexing a list raises \<^verbatim>\<open>IndexError\<close> out of range and
  counts from the end for a negative index, as Python does. The interpreter's recursion limit
  and memory are not modelled.
\<close>

subsection \<open>Python lists\<close>

datatype error = IndexError

text \<open>\<^verbatim>\<open>xs[i]\<close>: the index that is read or written, or the error.\<close>

definition py_index :: "'a list \<Rightarrow> int \<Rightarrow> error + nat" where
  "py_index xs i =
     (let len = int (length xs); j = (if i < 0 then len + i else i)
      in if 0 \<le> j \<and> j < len then Inr (nat j) else Inl IndexError)"

definition py_get :: "'a list \<Rightarrow> int \<Rightarrow> error + 'a" where
  "py_get xs i = (case py_index xs i of Inl e \<Rightarrow> Inl e | Inr j \<Rightarrow> Inr (xs ! j))"

text \<open>\<^verbatim>\<open>range(k)\<close>, empty when \<open>k \<le> 0\<close>.\<close>

definition py_range :: "int \<Rightarrow> int list" where
  "py_range k = map int [0..<nat k]"

subsection \<open>Hole\<close>

record hole =
  pos :: int
  has_peg :: bool
  moves :: "(int \<times> int) list"

text \<open>\<^verbatim>\<open>Hole.__init__(n, pos, row, offset)\<close>: three tests, each appending two candidates.\<close>

definition Hole :: "int \<Rightarrow> int \<Rightarrow> int \<Rightarrow> int \<Rightarrow> hole" where
  "Hole n p row offset =
     (let ms0 = [];
          ms1 = (if offset - row < -1
                 then (ms0 @ [(p + 1, p + 2)]) @ [(p - row, p - 2 * row + 1)] else ms0);
          ms2 = (if offset > 1
                 then (ms1 @ [(p - 1, p - 2)]) @ [(p - row - 1, p - 2 * row - 1)] else ms1);
          ms3 = (if n - row > 2
                 then (ms2 @ [(p + row + 1, p + 2 * (row + 1) + 1)])
                        @ [(p + row + 2, p + 2 * (row + 1) + 3)] else ms2)
      in \<lparr>pos = p, has_peg = True, moves = ms3\<rparr>)"

subsection \<open>Board\<close>

record board =
  size_board :: int
  numHoles :: int
  holes :: "hole list"
  winSize :: int
  route :: "(int \<times> int) list"

text \<open>
  The two nested loops of \<^verbatim>\<open>Board.__init__\<close>. The loop state is the list of holes built so
  far and the counter \<^verbatim>\<open>pos\<close>.
\<close>

primrec offset_loop :: "int \<Rightarrow> int \<Rightarrow> int list \<Rightarrow> hole list \<times> int \<Rightarrow> hole list \<times> int" where
  "offset_loop n row [] s = s"
| "offset_loop n row (offset # rest) s =
     offset_loop n row rest (fst s @ [Hole n (snd s) row offset], snd s + 1)"

primrec row_loop :: "int \<Rightarrow> int list \<Rightarrow> hole list \<times> int \<Rightarrow> hole list \<times> int" where
  "row_loop n [] s = s"
| "row_loop n (row # rest) s = row_loop n rest (offset_loop n row (py_range (row + 1)) s)"

definition Board :: "int \<Rightarrow> board" where
  "Board n =
     (let nh = (n\<^sup>2 + n) div 2
      in \<lparr>size_board = n, numHoles = nh,
          holes = fst (row_loop n (py_range n) ([], 0)),
          winSize = nh - 2, route = []\<rparr>)"

text \<open>\<^verbatim>\<open>Board.valid_moves\<close>: the inner loop over one hole's candidates, the outer over the holes.\<close>

type_synonym move = "int \<times> int \<times> int"

fun candidate_loop :: "board \<Rightarrow> hole \<Rightarrow> (int \<times> int) list \<Rightarrow> move list \<Rightarrow> error + move list" where
  "candidate_loop b h [] acc = Inr acc"
| "candidate_loop b h (m # rest) acc =
     (case py_get (holes b) (fst m) of
        Inl e \<Rightarrow> Inl e
      | Inr hmid \<Rightarrow>
          if has_peg hmid then
            (case py_get (holes b) (snd m) of
               Inl e \<Rightarrow> Inl e
             | Inr hdst \<Rightarrow>
                 if \<not> has_peg hdst then candidate_loop b h rest (acc @ [(pos h, fst m, snd m)])
                 else candidate_loop b h rest acc)
          else candidate_loop b h rest acc)"

fun hole_loop :: "board \<Rightarrow> hole list \<Rightarrow> move list \<Rightarrow> error + move list" where
  "hole_loop b [] acc = Inr acc"
| "hole_loop b (h # rest) acc =
     (if has_peg h then
        (case candidate_loop b h (moves h) acc of
           Inl e \<Rightarrow> Inl e
         | Inr acc' \<Rightarrow> hole_loop b rest acc')
      else hole_loop b rest acc)"

definition valid_moves :: "board \<Rightarrow> error + move list" where
  "valid_moves b = hole_loop b (holes b) []"

subsection \<open>Search\<close>

text \<open>\<^verbatim>\<open>xs[i].has_peg = v\<close>.\<close>

definition set_peg :: "hole list \<Rightarrow> int \<Rightarrow> bool \<Rightarrow> error + hole list" where
  "set_peg hs i v =
     (case py_index hs i of Inl e \<Rightarrow> Inl e | Inr j \<Rightarrow> Inr (hs[j := (hs ! j)\<lparr>has_peg := v\<rparr>]))"

text \<open>
  The body of the loop of \<^verbatim>\<open>find_solutions\<close> up to the win test: the deep copy is the value
  \<open>b\<close> itself, the move is logged, then the three pegs are written in the source's order.
\<close>

definition apply_move :: "board \<Rightarrow> move \<Rightarrow> error + board" where
  "apply_move b mv =
     (case mv of (origin, mid, dest) \<Rightarrow>
        let new_board = b\<lparr>route := route b @ [(origin, dest)]\<rparr> in
        (case set_peg (holes new_board) origin False of
           Inl e \<Rightarrow> Inl e
         | Inr hs1 \<Rightarrow>
             (case set_peg hs1 mid False of
                Inl e \<Rightarrow> Inl e
              | Inr hs2 \<Rightarrow>
                  (case set_peg hs2 dest True of
                     Inl e \<Rightarrow> Inl e
                   | Inr hs3 \<Rightarrow> Inr (new_board\<lparr>holes := hs3\<rparr>)))))"

text \<open>
  The attributes of the function object and the printed lines are the state of the search.
  The driver sets both counters before the first call.
\<close>

record search_state =
  num_of_solutions :: int
  num_of_function_runs :: int
  printed :: "(int \<times> int) list list"

text \<open>
  \<^verbatim>\<open>find_solutions\<close> and its loop over the moves. The first argument bounds the depth of the
  recursion; \<open>None\<close> means the bound was reached. The recursive call passes no second
  argument, so \<^verbatim>\<open>show_solutions\<close> is \<^verbatim>\<open>True\<close> below the top call. A win returns from the
  function, leaving the rest of the loop.
\<close>

fun find_solutions :: "nat \<Rightarrow> board \<Rightarrow> bool \<Rightarrow> search_state \<Rightarrow> (error + search_state) option"
  and move_loop :: "nat \<Rightarrow> board \<Rightarrow> bool \<Rightarrow> move list \<Rightarrow> search_state \<Rightarrow> (error + search_state) option"
where
  "find_solutions 0 b show_solutions st = None"
| "find_solutions (Suc k) b show_solutions st =
     (let st1 = st\<lparr>num_of_function_runs := num_of_function_runs st + 1\<rparr> in
      (case valid_moves b of
         Inl e \<Rightarrow> Some (Inl e)
       | Inr mvs \<Rightarrow>
           if length mvs = 0 then Some (Inr st1)
           else move_loop k b show_solutions mvs st1))"
| "move_loop k b show_solutions [] st = Some (Inr st)"
| "move_loop k b show_solutions (mv # rest) st =
     (case apply_move b mv of
        Inl e \<Rightarrow> Some (Inl e)
      | Inr new_board \<Rightarrow>
          if int (length (route new_board)) = winSize new_board then
            Some (Inr (st\<lparr>printed := (if show_solutions then printed st @ [route new_board]
                                       else printed st),
                          num_of_solutions := num_of_solutions st + 1\<rparr>))
          else
            (case find_solutions k new_board True st of
               None \<Rightarrow> None
             | Some (Inl e) \<Rightarrow> Some (Inl e)
             | Some (Inr st') \<Rightarrow> move_loop k b show_solutions rest st'))"

subsection \<open>Auxiliary notions for the proofs\<close>

text \<open>
  The geometry a board of \<^verbatim>\<open>Board(n)\<close> has: the hole at index \<open>i\<close> carries position \<open>i\<close>, and
  its candidate pairs index the list in range, the jumped hole differing from the origin.
\<close>

definition geom_ok :: "hole list \<Rightarrow> bool" where
  "geom_ok hs =
     (\<forall>i<length hs. pos (hs ! i) = int i \<and>
        (\<forall>(m, d) \<in> set (moves (hs ! i)).
           0 \<le> m \<and> m < int (length hs) \<and> 0 \<le> d \<and> d < int (length hs) \<and> m \<noteq> int i))"

text \<open>The number of holes that hold a peg.\<close>

definition count_pegs :: "board \<Rightarrow> nat" where
  "count_pegs b = length (filter has_peg (holes b))"

text \<open>The list that the two loops of \<^verbatim>\<open>valid_moves\<close> build when no index is out of range.\<close>

definition enumerated :: "board \<Rightarrow> move list" where
  "enumerated b =
     concat (map (\<lambda>h. if has_peg h
                      then map (\<lambda>(mid, dest). (pos h, mid, dest))
                             (filter (\<lambda>(mid, dest). has_peg (holes b ! nat mid) \<and>
                                                     \<not> has_peg (holes b ! nat dest)) (moves h))
                      else [])
       (holes b))"

text \<open>
  A sequence of legal jumps: each move is one of the valid moves of the board it is applied
  to, and is applied as the search applies it.
\<close>

fun jumps :: "board \<Rightarrow> move list \<Rightarrow> board option" where
  "jumps b [] = Some b"
| "jumps b (mv # rest) =
     (case valid_moves b of
        Inl e \<Rightarrow> None
      | Inr mvs \<Rightarrow>
          if mv \<in> set mvs
          then (case apply_move b mv of Inl e \<Rightarrow> None | Inr b' \<Rightarrow> jumps b' rest)
          else None)"

text \<open>
  A board of size \<open>n\<close> in any state of play: the fields and the geometry of \<^verbatim>\<open>Board(n)\<close>, any
  pegs and any route.
\<close>

definition board_of_size :: "int \<Rightarrow> board \<Rightarrow> bool" where
  "board_of_size n b =
     (size_board b = n \<and> numHoles b = numHoles (Board n) \<and> winSize b = winSize (Board n) \<and>
      map pos (holes b) = map pos (holes (Board n)) \<and>
      map moves (holes b) = map moves (holes (Board n)))"

text \<open>Triangular numbers, and the holes of one row and of the first \<open>k\<close> rows.\<close>

fun tri :: "nat \<Rightarrow> nat" where
  "tri 0 = 0"
| "tri (Suc k) = tri k + Suc k"

definition row_holes :: "int \<Rightarrow> nat \<Rightarrow> hole list" where
  "row_holes n r = map (\<lambda>off. Hole n (int (tri r + off)) (int r) (int off)) [0..<Suc r]"

definition rows_upto :: "int \<Rightarrow> nat \<Rightarrow> hole list" where
  "rows_upto n k = concat (map (row_holes n) [0..<k])"

text \<open>All candidate pairs of a hole index the hole list of the board in range.\<close>

definition in_range_moves :: "board \<Rightarrow> hole \<Rightarrow> bool" where
  "in_range_moves b h =
     (\<forall>(m, d) \<in> set (moves h). 0 \<le> m \<and> m < int (length (holes b)) \<and> 0 \<le> d \<and> d < int (length (holes b)))"

text \<open>Writing the peg of the hole at an index that is in range.\<close>

definition clear_peg :: "hole list \<Rightarrow> nat \<Rightarrow> bool \<Rightarrow> hole list" where
  "clear_peg hs i v = hs[i := (hs ! i)\<lparr>has_peg := v\<rparr>]"

text \<open>
  Which routes the search below a board can print, read off the code: \<open>reported_below b s\<close>
  follows the jumps \<open>s\<close> from \<open>b\<close>; at a board one jump short of \<open>winSize\<close> only the
  first valid move is printed, because the function returns there.
\<close>

fun reported_below :: "board \<Rightarrow> (int \<times> int) list \<Rightarrow> bool" where
  "reported_below b [] = False"
| "reported_below b (j # s) =
     (case valid_moves b of
        Inl e \<Rightarrow> False
      | Inr mvs \<Rightarrow>
          if int (length (route b)) + 1 = winSize b
          then s = [] \<and> (case mvs of [] \<Rightarrow> False | mv # rest \<Rightarrow> (fst mv, snd (snd mv)) = j)
          else list_ex (\<lambda>mv. (fst mv, snd (snd mv)) = j \<and>
                 (case apply_move b mv of Inl e \<Rightarrow> False | Inr nb \<Rightarrow> reported_below nb s)) mvs)"

text \<open>The driver: both counters are set to zero, nothing is printed yet.\<close>

definition initial_state :: search_state where
  "initial_state = \<lparr>num_of_solutions = 0, num_of_function_runs = 0, printed = []\<rparr>"

text \<open>The driver's board: \<^verbatim>\<open>Board(5)\<close> with the peg of hole 0 removed.\<close>

definition main_board :: board where
  "main_board = (case set_peg (holes (Board 5)) 0 False of
                   Inl e \<Rightarrow> Board 5 | Inr hs \<Rightarrow> (Board 5)\<lparr>holes := hs\<rparr>)"

text \<open>Thirteen legal jumps from the driver's board that leave one peg, and their route.\<close>

definition missed_jumps :: "move list" where
  "missed_jumps = [(3, 1, 0), (5, 4, 3), (0, 2, 5), (6, 3, 1), (9, 5, 2), (11, 7, 4),
    (13, 12, 11), (10, 11, 12), (12, 8, 5), (2, 5, 9), (14, 9, 5), (5, 4, 3), (3, 1, 0)]"

definition missed_route :: "(int \<times> int) list" where
  "missed_route = map (\<lambda>mv. (fst mv, snd (snd mv))) missed_jumps"

text \<open>
  The position formula of the specification, to be compared with the counter \<^verbatim>\<open>pos\<close> of the
  constructor.
\<close>

definition positionOf :: "int \<Rightarrow> int \<Rightarrow> int" where
  "positionOf row offset = row * (row + 1) div 2 + offset"

text \<open>The pairs \<open>(row, offset)\<close> in the order in which the two loops of the constructor visit them.\<close>

definition loop_coords :: "int \<Rightarrow> (int \<times> int) list" where
  "loop_coords n =
     concat (map (\<lambda>row. map (\<lambda>offset. (row, offset)) (py_range (row + 1))) (py_range n))"

text \<open>
  The candidate list as the specification words it: three independent tests, each adding two
  pairs, in the order east, northeast, west, northwest, south-west, south-east.
\<close>

definition candidateMoves :: "int \<Rightarrow> int \<Rightarrow> int \<Rightarrow> int \<Rightarrow> (int \<times> int) list" where
  "candidateMoves n position row offset =
     (if offset - row < -1
      then [(position + 1, position + 2), (position - row, position - 2 * row + 1)] else []) @
     (if offset > 1
      then [(position - 1, position - 2), (position - row - 1, position - 2 * row - 1)] else []) @
     (if n - row > 2
      then [(position + row + 1, position + 2 * (row + 1) + 1),
            (position + row + 2, position + 2 * (row + 1) + 3)] else [])"

text \<open>
  The enumerator as the specification words it: the holes in ascending position order (the
  row-major order of the coordinates), for a hole with a peg its candidates in generation
  order, each kept when mid has a peg and dest has none.
\<close>

definition validMoves_spec :: "int \<Rightarrow> board \<Rightarrow> move list" where
  "validMoves_spec n b =
     concat (map (\<lambda>(row, offset).
                let position = positionOf row offset in
                if has_peg (holes b ! nat position)
                then map (\<lambda>(mid, dest). (position, mid, dest))
                       (filter (\<lambda>(mid, dest). has_peg (holes b ! nat mid) \<and>
                                               \<not> has_peg (holes b ! nat dest))
                          (candidateMoves n position row offset))
                else [])
       (loop_coords n))"



section \<open>Properties\<close>

subsection \<open>Board construction\<close>

lemma offset_loop_append:
  "offset_loop n row (xs @ ys) s = offset_loop n row ys (offset_loop n row xs s)"
  by (induction xs arbitrary: s) simp_all

lemma row_loop_append:
  "row_loop n (xs @ ys) s = row_loop n ys (row_loop n xs s)"
  by (induction xs arbitrary: s) simp_all

lemma offset_loop_upt:
  "offset_loop n row (map int [0..<k]) (hs, p) =
     (hs @ map (\<lambda>off. Hole n (p + int off) row (int off)) [0..<k], p + int k)"
  by (induction k) (simp_all add: offset_loop_append)

lemma offset_loop_row:
  "offset_loop n (int r) (py_range (int r + 1)) (hs, int (tri r)) =
     (hs @ row_holes n r, int (tri (Suc r)))"
proof -
  have "nat (int r + 1) = Suc r" by simp
  then show ?thesis
    by (simp add: py_range_def offset_loop_upt row_holes_def del: upt_Suc)
qed

lemma row_loop_upt:
  "row_loop n (map int [0..<k]) ([], 0) = (rows_upto n k, int (tri k))"
proof (induction k)
  case 0
  show ?case by (simp add: rows_upto_def)
next
  case (Suc k)
  have "row_loop n (map int [0..<Suc k]) ([], 0) =
        offset_loop n (int k) (py_range (int k + 1)) (rows_upto n k, int (tri k))"
    by (simp add: row_loop_append Suc.IH)
  also have "\<dots> = (rows_upto n k @ row_holes n k, int (tri (Suc k)))"
    by (rule offset_loop_row)
  finally show ?case by (simp add: rows_upto_def)
qed

lemma holes_Board: "holes (Board n) = rows_upto n (nat n)"
  by (simp add: Board_def Let_def py_range_def row_loop_upt)

lemma length_row_holes: "length (row_holes n r) = Suc r"
  by (simp add: row_holes_def)

lemma rows_upto_Suc: "rows_upto n (Suc k) = rows_upto n k @ row_holes n k"
  by (simp add: rows_upto_def)

lemma length_rows_upto: "length (rows_upto n k) = tri k"
  by (induction k) (simp_all add: rows_upto_Suc length_row_holes, simp add: rows_upto_def)

lemma tri_mono: "a \<le> b \<Longrightarrow> tri a \<le> tri b"
  by (induction b) (auto simp: le_Suc_eq)

lemma rows_upto_nth:
  "r < k \<Longrightarrow> off \<le> r \<Longrightarrow>
     rows_upto n k ! (tri r + off) = Hole n (int (tri r + off)) (int r) (int off)"
proof (induction k)
  case 0
  then show ?case by simp
next
  case (Suc k)
  show ?case
  proof (cases "r < k")
    case True
    then have "tri r + off < tri k"
      using Suc.prems(2) tri_mono [of "Suc r" k] by simp
    then show ?thesis
      using True Suc by (simp add: rows_upto_Suc nth_append length_rows_upto)
  next
    case False
    then have rk: "r = k" using Suc.prems(1) by simp
    have "row_holes n k ! off = Hole n (int (tri k + off)) (int k) (int off)"
      unfolding row_holes_def using Suc.prems(2) rk
      by (simp only: nth_map_upt) (simp del: upt_Suc)
    then show ?thesis
      by (simp add: rk rows_upto_Suc nth_append length_rows_upto)
  qed
qed

lemma tri_decompose: "i < tri k \<Longrightarrow> \<exists>r off. r < k \<and> off \<le> r \<and> i = tri r + off"
proof (induction k)
  case 0
  then show ?case by simp
next
  case (Suc k)
  show ?case
  proof (cases "i < tri k")
    case True
    then obtain r off where "r < k" "off \<le> r" "i = tri r + off"
      using Suc.IH by blast
    then show ?thesis using less_Suc_eq by blast
  next
    case False
    then have "i - tri k \<le> k" "i = tri k + (i - tri k)"
      using Suc.prems by simp_all
    then show ?thesis by blast
  qed
qed

lemma tri_closed: "2 * tri k = k * (k + 1)"
  by (induction k) simp_all

lemma int_tri: "0 \<le> n \<Longrightarrow> int (tri (nat n)) = (n\<^sup>2 + n) div 2"
proof -
  assume n: "0 \<le> n"
  have "2 * int (tri (nat n)) = int (nat n) * (int (nat n) + 1)"
    using tri_closed [of "nat n"] by (metis of_nat_mult of_nat_Suc Suc_eq_plus1 of_nat_numeral of_nat_add of_nat_1)
  then have "2 * int (tri (nat n)) = n\<^sup>2 + n"
    using n by (simp add: power2_eq_square algebra_simps)
  then show ?thesis by simp
qed

lemma Hole_pos: "pos (Hole n p row offset) = p"
  by (simp add: Hole_def Let_def)

lemma Hole_moves:
  "moves (Hole n p row offset) =
     (if offset - row < -1 then [(p + 1, p + 2), (p - row, p - 2 * row + 1)] else []) @
     (if offset > 1 then [(p - 1, p - 2), (p - row - 1, p - 2 * row - 1)] else []) @
     (if n - row > 2 then [(p + row + 1, p + 2 * (row + 1) + 1), (p + row + 2, p + 2 * (row + 1) + 3)]
      else [])"
  by (simp add: Hole_def Let_def)

lemma Hole_moves_cases:
  assumes "(m, d) \<in> set (moves (Hole n p row offset))"
  shows "(offset - row < -1 \<and> ((m, d) = (p + 1, p + 2) \<or> (m, d) = (p - row, p - 2 * row + 1)))
       \<or> (offset > 1 \<and> ((m, d) = (p - 1, p - 2) \<or> (m, d) = (p - row - 1, p - 2 * row - 1)))
       \<or> (n - row > 2 \<and> ((m, d) = (p + row + 1, p + 2 * (row + 1) + 1)
             \<or> (m, d) = (p + row + 2, p + 2 * (row + 1) + 3)))"
proof -
  from assms have
    "(m, d) \<in> set (if offset - row < -1 then [(p + 1, p + 2), (p - row, p - 2 * row + 1)] else [])
     \<or> (m, d) \<in> set (if offset > 1 then [(p - 1, p - 2), (p - row - 1, p - 2 * row - 1)] else [])
     \<or> (m, d) \<in> set (if n - row > 2 then [(p + row + 1, p + 2 * (row + 1) + 1), (p + row + 2, p + 2 * (row + 1) + 3)]
      else [])"
    unfolding Hole_moves set_append by blast
  then show ?thesis
    by (elim disjE; simp split: if_splits; blast)
qed

lemma Hole_moves_range:
  assumes "r < k" and "off \<le> r"
    and "(m, d) \<in> set (moves (Hole (int k) (int (tri r + off)) (int r) (int off)))"
  shows "0 \<le> m \<and> m < int (tri k) \<and> 0 \<le> d \<and> d < int (tri k) \<and> m \<noteq> int (tri r + off)"
proof -
  have up: "tri r + r + 1 \<le> tri k"
    using tri_mono [of "Suc r" k] assms(1) by simp
  have south: "tri r + 3 * r + 6 \<le> tri k" if "int k - int r > 2"
  proof -
    from that have "Suc (Suc (Suc r)) \<le> k" by simp
    from tri_mono [OF this] show ?thesis by simp
  qed
  have north: "r + (r - 1) \<le> tri r" if "2 \<le> r"
  proof -
    from that obtain q where "r = Suc (Suc q)"
      by (metis One_nat_def Suc_1 Suc_le_D Suc_le_mono)
    then show ?thesis by simp
  qed
  from Hole_moves_cases [OF assms(3)] consider
      (e) "int off - int r < -1" "m = int (tri r + off) + 1" "d = int (tri r + off) + 2"
    | (ne) "int off - int r < -1"
        "m = int (tri r + off) - int r" "d = int (tri r + off) - 2 * int r + 1"
    | (w) "int off > 1" "m = int (tri r + off) - 1" "d = int (tri r + off) - 2"
    | (nw) "int off > 1"
        "m = int (tri r + off) - int r - 1" "d = int (tri r + off) - 2 * int r - 1"
    | (sw) "int k - int r > 2"
        "m = int (tri r + off) + int r + 1" "d = int (tri r + off) + 2 * (int r + 1) + 1"
    | (se) "int k - int r > 2"
        "m = int (tri r + off) + int r + 2" "d = int (tri r + off) + 2 * (int r + 1) + 3"
    by (simp only: prod.inject) blast
  then show ?thesis
  proof cases
    case e
    then show ?thesis using up assms(2) by linarith
  next
    case ne
    then have "2 \<le> r" by linarith
    from north [OF this] show ?thesis using ne up assms(2) by linarith
  next
    case w
    then show ?thesis using up assms(2) by linarith
  next
    case nw
    then have "2 \<le> r" using assms(2) by linarith
    from north [OF this] show ?thesis using nw up assms(2) by linarith
  next
    case sw
    from south [OF sw(1)] show ?thesis using sw(2,3) assms(2) by simp
  next
    case se
    from south [OF se(1)] show ?thesis using se(2,3) assms(2) by simp
  qed
qed

lemma geom_ok_Board: "geom_ok (holes (Board n))"
  unfolding geom_ok_def holes_Board length_rows_upto
proof (intro allI impI)
  fix i
  assume "i < tri (nat n)"
  then obtain r off where ro: "r < nat n" "off \<le> r" "i = tri r + off"
    using tri_decompose by blast
  then have n: "int (nat n) = n" by simp
  have h: "rows_upto n (nat n) ! i = Hole (int (nat n)) (int i) (int r) (int off)"
    using rows_upto_nth [OF ro(1,2), of n] by (simp only: ro(3) n)
  have rng: "0 \<le> m \<and> m < int (tri (nat n)) \<and> 0 \<le> d \<and> d < int (tri (nat n)) \<and> m \<noteq> int i"
    if "(m, d) \<in> set (moves (Hole (int (nat n)) (int i) (int r) (int off)))" for m d
    using Hole_moves_range [OF ro(1,2), of m d] that unfolding ro(3) .
  have "0 \<le> m \<and> m < int (tri (nat n)) \<and> 0 \<le> d \<and> d < int (tri (nat n)) \<and> m \<noteq> int i"
    if "(m, d) \<in> set (moves (rows_upto n (nat n) ! i))" for m d
    using that unfolding h by (rule rng)
  then show "pos (rows_upto n (nat n) ! i) = int i \<and>
        (\<forall>(m, d)\<in>set (moves (rows_upto n (nat n) ! i)).
           0 \<le> m \<and> m < int (tri (nat n)) \<and> 0 \<le> d \<and> d < int (tri (nat n)) \<and> m \<noteq> int i)"
    unfolding h Hole_pos by blast
qed

lemma geom_ok_cong:
  assumes a: "map pos hs = map pos hs'" and b: "map moves hs = map moves hs'" and g: "geom_ok hs'"
  shows "geom_ok hs"
proof -
  have len: "length hs = length hs'" using a by (rule map_eq_imp_length_eq)
  have "pos (hs ! i) = pos (hs' ! i) \<and> moves (hs ! i) = moves (hs' ! i)" if "i < length hs" for i
    using that a b len by (metis nth_map)
  then show ?thesis using g len by (simp add: geom_ok_def)
qed

lemma board_of_size_geom: "board_of_size n b \<Longrightarrow> geom_ok (holes b)"
  unfolding board_of_size_def using geom_ok_cong [OF _ _ geom_ok_Board] by blast

subsection \<open>The move enumerator\<close>

lemma py_index_in_range: "0 \<le> i \<Longrightarrow> i < int (length xs) \<Longrightarrow> py_index xs i = Inr (nat i)"
  by (simp add: py_index_def Let_def)

lemma py_get_in_range: "0 \<le> i \<Longrightarrow> i < int (length xs) \<Longrightarrow> py_get xs i = Inr (xs ! nat i)"
  by (simp add: py_get_def py_index_in_range)

lemma set_peg_in_range:
  "0 \<le> i \<Longrightarrow> i < int (length hs) \<Longrightarrow>
     set_peg hs i v = Inr (hs[nat i := (hs ! nat i)\<lparr>has_peg := v\<rparr>])"
  by (simp add: set_peg_def py_index_in_range)

lemma candidate_loop_spec:
  assumes "\<forall>(m, d) \<in> set cs. 0 \<le> m \<and> m < int (length (holes b)) \<and> 0 \<le> d \<and> d < int (length (holes b))"
  shows "candidate_loop b h cs acc =
           Inr (acc @ map (\<lambda>(mid, dest). (pos h, mid, dest))
                        (filter (\<lambda>(mid, dest). has_peg (holes b ! nat mid) \<and>
                                                \<not> has_peg (holes b ! nat dest)) cs))"
  using assms
proof (induction cs arbitrary: acc)
  case Nil
  show ?case by simp
next
  case (Cons c cs)
  obtain m d where c: "c = (m, d)" by (cases c)
  from Cons.prems c have r: "0 \<le> m" "m < int (length (holes b))" "0 \<le> d" "d < int (length (holes b))"
    by simp_all
  from Cons.prems have rest: "\<forall>(m, d) \<in> set cs. 0 \<le> m \<and> m < int (length (holes b)) \<and> 0 \<le> d \<and> d < int (length (holes b))"
    by simp
  show ?case
    by (simp add: c py_get_in_range r Cons.IH [OF rest])
qed

lemma hole_loop_spec:
  assumes "\<forall>h \<in> set hs. in_range_moves b h"
  shows "hole_loop b hs acc =
           Inr (acc @ concat (map (\<lambda>h. if has_peg h
                      then map (\<lambda>(mid, dest). (pos h, mid, dest))
                             (filter (\<lambda>(mid, dest). has_peg (holes b ! nat mid) \<and>
                                                     \<not> has_peg (holes b ! nat dest)) (moves h))
                      else []) hs))"
  using assms
proof (induction hs arbitrary: acc)
  case Nil
  show ?case by simp
next
  case (Cons h hs)
  from Cons.prems have h: "\<forall>(m, d) \<in> set (moves h). 0 \<le> m \<and> m < int (length (holes b)) \<and> 0 \<le> d \<and> d < int (length (holes b))"
    by (simp add: in_range_moves_def)
  from Cons.prems have rest: "\<forall>h \<in> set hs. in_range_moves b h" by simp
  show ?case
    by (simp add: candidate_loop_spec [OF h] Cons.IH [OF rest])
qed

lemma geom_ok_in_range: "geom_ok (holes b) \<Longrightarrow> h \<in> set (holes b) \<Longrightarrow> in_range_moves b h"
  unfolding geom_ok_def in_range_moves_def in_set_conv_nth by fastforce

lemma valid_moves_eq_spec: "geom_ok (holes b) \<Longrightarrow> valid_moves b = Inr (enumerated b)"
  unfolding valid_moves_def enumerated_def
  using hole_loop_spec [of "holes b" b "[]"] geom_ok_in_range [of b] by simp

lemma geom_ok_pos: "geom_ok hs \<Longrightarrow> i < length hs \<Longrightarrow> pos (hs ! i) = int i"
  by (simp add: geom_ok_def)

lemma geom_ok_moves:
  "geom_ok hs \<Longrightarrow> i < length hs \<Longrightarrow> (m, d) \<in> set (moves (hs ! i)) \<Longrightarrow>
     0 \<le> m \<and> m < int (length hs) \<and> 0 \<le> d \<and> d < int (length hs) \<and> m \<noteq> int i"
  unfolding geom_ok_def by blast

lemma enumerated_set:
  "(origin, m, d) \<in> set (enumerated b) \<longleftrightarrow>
     (\<exists>h \<in> set (holes b). has_peg h \<and> pos h = origin \<and> (m, d) \<in> set (moves h) \<and>
        has_peg (holes b ! nat m) \<and> \<not> has_peg (holes b ! nat d))"
  unfolding enumerated_def by (auto split: if_splits)

lemma enumerated_mem:
  assumes g: "geom_ok (holes b)"
  shows "(origin, m, d) \<in> set (enumerated b) \<longleftrightarrow>
           0 \<le> origin \<and> origin < int (length (holes b)) \<and> has_peg (holes b ! nat origin) \<and>
           (m, d) \<in> set (moves (holes b ! nat origin)) \<and>
           has_peg (holes b ! nat m) \<and> \<not> has_peg (holes b ! nat d)"
    (is "?L \<longleftrightarrow> ?R")
proof
  assume ?L
  then obtain h where h: "h \<in> set (holes b)" "has_peg h" "pos h = origin" "(m, d) \<in> set (moves h)"
      "has_peg (holes b ! nat m)" "\<not> has_peg (holes b ! nat d)"
    unfolding enumerated_set by blast
  from h(1) obtain i where i: "i < length (holes b)" "h = holes b ! i"
    by (auto simp: in_set_conv_nth)
  with g have "pos h = int i" by (simp add: geom_ok_pos)
  with h i show ?R by simp
next
  assume r: ?R
  then have "nat origin < length (holes b)" by linarith
  then have mem: "holes b ! nat origin \<in> set (holes b)" by simp
  have "pos (holes b ! nat origin) = origin"
    using geom_ok_pos [OF g \<open>nat origin < length (holes b)\<close>] r by simp
  with r mem show ?L unfolding enumerated_set by blast
qed

lemma legal_move_facts:
  assumes g: "geom_ok (holes b)" and mv: "(origin, m, d) \<in> set (enumerated b)"
  shows "0 \<le> origin \<and> origin < int (length (holes b)) \<and>
         0 \<le> m \<and> m < int (length (holes b)) \<and> 0 \<le> d \<and> d < int (length (holes b)) \<and>
         m \<noteq> origin \<and> d \<noteq> origin \<and> d \<noteq> m \<and>
         has_peg (holes b ! nat origin) \<and> has_peg (holes b ! nat m) \<and> \<not> has_peg (holes b ! nat d)"
proof -
  from mv g have r: "0 \<le> origin" "origin < int (length (holes b))" "has_peg (holes b ! nat origin)"
      "(m, d) \<in> set (moves (holes b ! nat origin))"
      "has_peg (holes b ! nat m)" "\<not> has_peg (holes b ! nat d)"
    by (simp_all add: enumerated_mem)
  from r(1,2) have "nat origin < length (holes b)" by linarith
  from geom_ok_moves [OF g this r(4)]
  have "0 \<le> m \<and> m < int (length (holes b)) \<and> 0 \<le> d \<and> d < int (length (holes b)) \<and>
      m \<noteq> int (nat origin)" .
  moreover have "d \<noteq> origin" "d \<noteq> m" using r(3,5,6) by auto
  ultimately show ?thesis using r by simp
qed

lemma count_filter_update:
  "i < length xs \<Longrightarrow>
     length (filter P (xs[i := x])) + (if P (xs ! i) then 1 else 0) =
     length (filter P xs) + (if P x then 1 else 0)"
proof (induction xs arbitrary: i)
  case Nil
  then show ?case by simp
next
  case (Cons a xs)
  show ?case
  proof (cases i)
    case 0
    then show ?thesis by simp
  next
    case (Suc j)
    with Cons.prems have "j < length xs" by simp
    from Cons.IH [OF this] Suc show ?thesis by simp
  qed
qed

subsection \<open>Applying a jump\<close>

lemma length_clear_peg: "length (clear_peg hs i v) = length hs"
  by (simp add: clear_peg_def)

lemma clear_peg_nth:
  "j < length hs \<Longrightarrow>
     clear_peg hs i v ! j = (if j = i then (hs ! j)\<lparr>has_peg := v\<rparr> else hs ! j)"
  by (simp add: clear_peg_def nth_list_update)

lemma map_pos_clear_peg: "map pos (clear_peg hs i v) = map pos hs"
  by (rule nth_equalityI) (simp_all add: length_clear_peg clear_peg_nth)

lemma map_moves_clear_peg: "map moves (clear_peg hs i v) = map moves hs"
  by (rule nth_equalityI) (simp_all add: length_clear_peg clear_peg_nth)

lemma count_clear_peg:
  "i < length hs \<Longrightarrow>
     length (filter has_peg (clear_peg hs i v)) + (if has_peg (hs ! i) then 1 else 0) =
     length (filter has_peg hs) + (if v then 1 else 0)"
  using count_filter_update [of i hs has_peg "(hs ! i)\<lparr>has_peg := v\<rparr>"]
  by (simp add: clear_peg_def)

lemma apply_move_clear_peg:
  assumes "0 \<le> origin" "origin < int (length (holes b))"
    and "0 \<le> m" "m < int (length (holes b))" and "0 \<le> d" "d < int (length (holes b))"
  shows "apply_move b (origin, m, d) =
     Inr (b\<lparr>route := route b @ [(origin, d)],
            holes := clear_peg (clear_peg (clear_peg (holes b) (nat origin) False) (nat m) False)
                       (nat d) True\<rparr>)"
  using assms by (simp add: apply_move_def set_peg_in_range Let_def clear_peg_def)

lemma legal_step:
  assumes g: "geom_ok (holes b)" and mv: "(origin, m, d) \<in> set (enumerated b)"
  shows "\<exists>b'. apply_move b (origin, m, d) = Inr b' \<and>
           route b' = route b @ [(origin, d)] \<and>
           winSize b' = winSize b \<and> numHoles b' = numHoles b \<and> size_board b' = size_board b \<and>
           map pos (holes b') = map pos (holes b) \<and> map moves (holes b') = map moves (holes b) \<and>
           count_pegs b' + 1 = count_pegs b \<and>
           \<not> has_peg (holes b' ! nat origin) \<and> \<not> has_peg (holes b' ! nat m) \<and>
           has_peg (holes b' ! nat d) \<and>
           (\<forall>i < length (holes b). i \<noteq> nat origin \<longrightarrow> i \<noteq> nat m \<longrightarrow> i \<noteq> nat d \<longrightarrow>
              holes b' ! i = holes b ! i)"
proof -
  let ?hs = "holes b"
  let ?o = "nat origin" and ?m = "nat m" and ?d = "nat d"
  let ?h1 = "clear_peg ?hs ?o False"
  let ?h2 = "clear_peg ?h1 ?m False"
  let ?h3 = "clear_peg ?h2 ?d True"
  let ?b' = "b\<lparr>route := route b @ [(origin, d)], holes := ?h3\<rparr>"
  from legal_move_facts [OF g mv] have
    r: "0 \<le> origin" "origin < int (length ?hs)" "0 \<le> m" "m < int (length ?hs)"
       "0 \<le> d" "d < int (length ?hs)"
    and ne: "m \<noteq> origin" "d \<noteq> origin" "d \<noteq> m"
    and pegs: "has_peg (?hs ! ?o)" "has_peg (?hs ! ?m)" "\<not> has_peg (?hs ! ?d)"
    by simp_all
  have lt: "?o < length ?hs" "?m < length ?hs" "?d < length ?hs"
    using r by linarith+
  have nne: "?m \<noteq> ?o" "?d \<noteq> ?o" "?d \<noteq> ?m"
    using r ne by linarith+
  have ap: "apply_move b (origin, m, d) = Inr ?b'"
    by (rule apply_move_clear_peg [OF r])
  have c1: "length (filter has_peg ?h1) + 1 = length (filter has_peg ?hs)"
    using count_clear_peg [OF lt(1), of False] pegs(1) by simp
  have "has_peg (?h1 ! ?m)"
    using lt nne pegs by (simp add: clear_peg_nth)
  then have c2: "length (filter has_peg ?h2) + 1 = length (filter has_peg ?h1)"
    using count_clear_peg [of ?m ?h1 False] lt by (simp add: length_clear_peg)
  have "\<not> has_peg (?h2 ! ?d)"
    using lt nne pegs by (simp add: clear_peg_nth length_clear_peg)
  then have c3: "length (filter has_peg ?h3) = length (filter has_peg ?h2) + 1"
    using count_clear_peg [of ?d ?h2 True] lt by (simp add: length_clear_peg)
  have cnt: "count_pegs ?b' + 1 = count_pegs b"
    using c1 c2 c3 by (simp add: count_pegs_def)
  have after: "\<not> has_peg (?h3 ! ?o)" "\<not> has_peg (?h3 ! ?m)" "has_peg (?h3 ! ?d)"
    using lt nne by (simp_all add: clear_peg_nth length_clear_peg)
  have others: "?h3 ! i = ?hs ! i"
    if "i < length ?hs" "i \<noteq> ?o" "i \<noteq> ?m" "i \<noteq> ?d" for i
    using that by (simp add: clear_peg_nth length_clear_peg)
  show ?thesis
    using ap cnt after others
    by (intro exI [of _ ?b']) (simp add: map_pos_clear_peg map_moves_clear_peg)
qed

subsection \<open>The search returns\<close>

lemma legal_step_geom:
  assumes g: "geom_ok (holes b)" and mv: "mv \<in> set (enumerated b)"
  shows "\<exists>b'. apply_move b mv = Inr b' \<and> geom_ok (holes b') \<and> count_pegs b' + 1 = count_pegs b"
proof -
  obtain origin m d where mvd: "mv = (origin, m, d)" by (cases mv)
  from legal_step [OF g mv [unfolded mvd]] obtain b' where
    b': "apply_move b (origin, m, d) = Inr b'" "map pos (holes b') = map pos (holes b)"
      "map moves (holes b') = map moves (holes b)" "count_pegs b' + 1 = count_pegs b"
    by blast
  from geom_ok_cong [OF b'(2,3) g] b'(1,4) mvd show ?thesis by blast
qed

lemma move_loop_total:
  assumes IH: "\<And>b' st'. geom_ok (holes b') \<Longrightarrow> count_pegs b' < k \<Longrightarrow>
                 \<exists>st''. find_solutions k b' True st' = Some (Inr st'')"
    and g: "geom_ok (holes b)" and c: "count_pegs b \<le> k"
    and sub: "set mvs \<subseteq> set (enumerated b)"
  shows "\<exists>st'. move_loop k b sh mvs st = Some (Inr st')"
  using sub
proof (induction mvs arbitrary: st)
  case Nil
  show ?case by simp
next
  case (Cons mv rest)
  from Cons.prems have mv: "mv \<in> set (enumerated b)"
    and rest: "set rest \<subseteq> set (enumerated b)" by simp_all
  from legal_step_geom [OF g mv] obtain b' where
    b': "apply_move b mv = Inr b'" "geom_ok (holes b')" "count_pegs b' + 1 = count_pegs b"
    by blast
  show ?case
  proof (cases "int (length (route b')) = winSize b'")
    case True
    then show ?thesis using b'(1) by simp
  next
    case False
    from b'(3) c have "count_pegs b' < k" by simp
    from IH [OF b'(2) this] obtain st'' where
      "find_solutions k b' True st = Some (Inr st'')" by blast
    then show ?thesis
      using b'(1) False Cons.IH [OF rest, of st''] by simp
  qed
qed

lemma find_solutions_total:
  "geom_ok (holes b) \<Longrightarrow> count_pegs b < k \<Longrightarrow>
     \<exists>st'. find_solutions k b sh st = Some (Inr st')"
proof (induction k arbitrary: b sh st)
  case 0
  then show ?case by simp
next
  case (Suc k)
  have vm: "valid_moves b = Inr (enumerated b)"
    by (rule valid_moves_eq_spec [OF Suc.prems(1)])
  from Suc.prems(2) have c: "count_pegs b \<le> k" by simp
  have "\<exists>st'. move_loop k b sh (enumerated b) st1 = Some (Inr st')" for st1
    by (rule move_loop_total [OF Suc.IH Suc.prems(1) c]) simp_all
  then show ?case
    by (simp add: vm Let_def)
qed

subsection \<open>What the search prints\<close>

lemma apply_move_route:
  assumes "apply_move b mv = Inr nb"
  shows "route nb = route b @ [(fst mv, snd (snd mv))] \<and> winSize nb = winSize b"
proof -
  obtain origin m d where mv: "mv = (origin, m, d)" by (cases mv)
  from assms show ?thesis
    unfolding mv apply_move_def Let_def by (auto split: sum.splits)
qed

lemma move_loop_printed:
  assumes IH: "\<And>nb st st'. find_solutions k nb True st = Some (Inr st') \<Longrightarrow>
       \<exists>new. printed st' = printed st @ new \<and>
         (\<forall>r \<in> set new. \<exists>s. r = route nb @ s \<and> reported_below nb s)"
    and vm: "valid_moves b = Inr (pre @ mvs)"
    and first: "pre = [] \<or> int (length (route b)) + 1 \<noteq> winSize b"
    and run: "move_loop k b sh mvs st = Some (Inr st')"
  shows "\<exists>new. printed st' = printed st @ new \<and>
           (\<forall>r \<in> set new. \<exists>s. r = route b @ s \<and> reported_below b s)"
  using vm first run
proof (induction mvs arbitrary: pre st)
  case Nil
  then show ?case by simp
next
  case (Cons mv rest)
  show ?case
  proof (cases "apply_move b mv")
    case (Inl e)
    with Cons.prems(3) show ?thesis by simp
  next
    case (Inr nb)
    note rt = apply_move_route [OF Inr]
    show ?thesis
    proof (cases "int (length (route nb)) = winSize nb")
      case True
      with rt have win: "int (length (route b)) + 1 = winSize b" by simp
      with Cons.prems(2) have pre: "pre = []" by simp
      have rb: "reported_below b [(fst mv, snd (snd mv))]"
        using Cons.prems(1) pre win by simp
      from Cons.prems(3) Inr True have
        "st' = st\<lparr>printed := (if sh then printed st @ [route nb] else printed st),
                   num_of_solutions := num_of_solutions st + 1\<rparr>"
        by simp
      then have "printed st' = printed st @ (if sh then [route nb] else [])" by simp
      moreover have "\<forall>r \<in> set (if sh then [route nb] else []).
                       \<exists>s. r = route b @ s \<and> reported_below b s"
        using rb rt by auto
      ultimately show ?thesis by blast
    next
      case False
      with rt have nowin: "int (length (route b)) + 1 \<noteq> winSize b" by simp
      from Cons.prems(3) Inr False obtain st1 where
        st1: "find_solutions k nb True st = Some (Inr st1)"
        and rest: "move_loop k b sh rest st1 = Some (Inr st')"
        by (auto split: option.splits sum.splits)
      from IH [OF st1] obtain new1 where
        new1: "printed st1 = printed st @ new1"
          "\<forall>r \<in> set new1. \<exists>s. r = route nb @ s \<and> reported_below nb s" by blast
      have vm': "valid_moves b = Inr ((pre @ [mv]) @ rest)"
        using Cons.prems(1) by simp
      from Cons.IH [OF vm' _ rest] nowin obtain new2 where
        new2: "printed st' = printed st1 @ new2"
          "\<forall>r \<in> set new2. \<exists>s. r = route b @ s \<and> reported_below b s" by blast
      have "\<exists>s. r = route b @ s \<and> reported_below b s" if "r \<in> set new1" for r
      proof -
        from new1(2) that obtain s where s: "r = route nb @ s" "reported_below nb s" by blast
        have "reported_below b ((fst mv, snd (snd mv)) # s)"
          using Cons.prems(1) nowin Inr s(2) by (auto simp: list_ex_iff)
        with s(1) rt show ?thesis by auto
      qed
      with new1(1) new2 have "printed st' = printed st @ (new1 @ new2) \<and>
          (\<forall>r \<in> set (new1 @ new2). \<exists>s. r = route b @ s \<and> reported_below b s)"
        by auto
      then show ?thesis by blast
    qed
  qed
qed

lemma find_solutions_printed:
  "find_solutions k b sh st = Some (Inr st') \<Longrightarrow>
     \<exists>new. printed st' = printed st @ new \<and>
       (\<forall>r \<in> set new. \<exists>s. r = route b @ s \<and> reported_below b s)"
proof (induction k arbitrary: b sh st st')
  case 0
  then show ?case by simp
next
  case (Suc k)
  let ?st1 = "st\<lparr>num_of_function_runs := num_of_function_runs st + 1\<rparr>"
  from Suc.prems obtain mvs where vm: "valid_moves b = Inr mvs"
    by (auto simp: Let_def split: sum.splits)
  show ?case
  proof (cases "length mvs = 0")
    case True
    with Suc.prems vm have "st' = ?st1" by (simp add: Let_def)
    then have "printed st' = printed st @ []" by simp
    then show ?thesis by (intro exI [of _ "[]"]) simp
  next
    case False
    with Suc.prems vm have run: "move_loop k b sh mvs ?st1 = Some (Inr st')"
      by (simp add: Let_def)
    have vm': "valid_moves b = Inr ([] @ mvs)" using vm by simp
    from move_loop_printed [OF Suc.IH vm' _ run] show ?thesis by simp
  qed
qed

lemma set_peg_geometry:
  assumes "set_peg hs i v = Inr hs'"
  shows "map pos hs' = map pos hs \<and> map moves hs' = map moves hs"
proof -
  from assms obtain j where "hs' = clear_peg hs j v"
    unfolding set_peg_def clear_peg_def by (auto split: sum.splits)
  then show ?thesis by (simp add: map_pos_clear_peg map_moves_clear_peg)
qed

lemma main_board_geom: "geom_ok (holes main_board)"
proof (cases "set_peg (holes (Board 5)) 0 False")
  case (Inl e)
  then show ?thesis by (simp add: main_board_def geom_ok_Board)
next
  case (Inr hs)
  from set_peg_geometry [OF Inr] have "geom_ok hs"
    using geom_ok_cong [OF _ _ geom_ok_Board] by blast
  with Inr show ?thesis by (simp add: main_board_def)
qed

lemma not_rep: "\<not> reported_below main_board missed_route"
  by code_simp

lemma jumps_ok: "(case jumps main_board missed_jumps of
          None \<Rightarrow> False
        | Some b \<Rightarrow> route b = missed_route \<and> int (length (route b)) = winSize b \<and> count_pegs b = 1)"
  by code_simp

lemma route_main: "route main_board = []"
  by code_simp

lemma move_loop_no_error:
  assumes IH: "\<And>nb st e. geom_ok (holes nb) \<Longrightarrow> find_solutions k nb True st \<noteq> Some (Inl e)"
    and g: "geom_ok (holes b)"
    and sub: "set mvs \<subseteq> set (enumerated b)"
  shows "move_loop k b sh mvs st \<noteq> Some (Inl e)"
  using sub
proof (induction mvs arbitrary: st)
  case Nil
  show ?case by simp
next
  case (Cons mv rest)
  from Cons.prems have mv: "mv \<in> set (enumerated b)"
    and rest: "set rest \<subseteq> set (enumerated b)" by simp_all
  from legal_step_geom [OF g mv] obtain b' where
    b': "apply_move b mv = Inr b'" "geom_ok (holes b')" by blast
  show ?case
  proof (cases "find_solutions k b' True st")
    case None
    then show ?thesis using b'(1) by simp
  next
    case (Some res)
    show ?thesis
    proof (cases res)
      case (Inl e')
      with Some IH [OF b'(2), of st e'] show ?thesis by simp
    next
      case (Inr st'')
      with Some b'(1) Cons.IH [OF rest, of st''] show ?thesis by simp
    qed
  qed
qed

lemma find_solutions_no_error:
  "geom_ok (holes b) \<Longrightarrow> find_solutions k b sh st \<noteq> Some (Inl e)"
proof (induction k arbitrary: b sh st e)
  case 0
  show ?case by simp
next
  case (Suc k)
  have vm: "valid_moves b = Inr (enumerated b)"
    by (rule valid_moves_eq_spec [OF Suc.prems])
  have "move_loop k b sh (enumerated b) st1 \<noteq> Some (Inl e)" for st1
    by (rule move_loop_no_error [OF Suc.IH Suc.prems]) simp_all
  then show ?case
    by (simp add: vm Let_def)
qed

text \<open>
  Claim C1 (the search processes every move at every node, also after a win, and so reports
  every winning sequence). The code returns from \<^verbatim>\<open>find_solutions\<close> at the first win of a
  node. On the driver's own board the search returns normally for a large enough depth bound
  and raises nothing, \<open>missed_jumps\<close> are thirteen legal jumps that reach \<open>winSize\<close> and leave
  one peg, and their route is never printed, whatever the depth bound: at the node after the
  twelfth jump the valid moves are \<open>(1, 3, 6)\<close> and \<open>(3, 1, 0)\<close>, the first is reported and the
  function returns before the second.
\<close>

theorem sibling_win_not_reported:
  "(\<exists>k st'. find_solutions k main_board True initial_state = Some (Inr st')) \<and>
   (\<forall>k. case find_solutions k main_board True initial_state of
           None \<Rightarrow> True
         | Some (Inl e) \<Rightarrow> False
         | Some (Inr st') \<Rightarrow> missed_route \<notin> set (printed st')) \<and>
   (case jumps main_board missed_jumps of
      None \<Rightarrow> False
    | Some b \<Rightarrow> route b = missed_route \<and> int (length (route b)) = winSize b \<and> count_pegs b = 1)"
proof (intro conjI allI)
  show "\<exists>k st'. find_solutions k main_board True initial_state = Some (Inr st')"
    using find_solutions_total [OF main_board_geom, of "Suc (count_pegs main_board)"] by blast
next
  fix k
  show "case find_solutions k main_board True initial_state of
           None \<Rightarrow> True
         | Some (Inl e) \<Rightarrow> False
         | Some (Inr st') \<Rightarrow> missed_route \<notin> set (printed st')"
  proof (cases "find_solutions k main_board True initial_state")
    case None
    then show ?thesis by simp
  next
    case (Some res)
    show ?thesis
    proof (cases res)
      case (Inl e)
      with Some find_solutions_no_error [OF main_board_geom] show ?thesis by blast
    next
      case (Inr st')
      from find_solutions_printed [OF Some [unfolded Inr]] obtain new where
        new: "printed st' = printed initial_state @ new"
          "\<forall>r \<in> set new. \<exists>s. r = route main_board @ s \<and> reported_below main_board s"
        by blast
      have "missed_route \<notin> set new"
      proof
        assume "missed_route \<in> set new"
        with new(2) obtain s where "missed_route = route main_board @ s"
          "reported_below main_board s" by blast
        then have "reported_below main_board missed_route" by (simp add: route_main)
        with not_rep show False by simp
      qed
      with new(1) Some Inr show ?thesis by (simp add: initial_state_def)
    qed
  qed
next
  show "case jumps main_board missed_jumps of
      None \<Rightarrow> False
    | Some b \<Rightarrow> route b = missed_route \<and> int (length (route b)) = winSize b \<and> count_pegs b = 1"
    by (rule jumps_ok)
qed

subsection \<open>Boards of one size\<close>

lemma board_of_size_length:
  "board_of_size n b \<Longrightarrow> length (holes b) = tri (nat n)"
proof -
  assume "board_of_size n b"
  then have "map pos (holes b) = map pos (holes (Board n))"
    by (simp add: board_of_size_def)
  then have "length (holes b) = length (holes (Board n))"
    by (rule map_eq_imp_length_eq)
  then show ?thesis by (simp add: holes_Board length_rows_upto)
qed

lemma board_of_size_numHoles:
  assumes "0 \<le> n" and "board_of_size n b"
  shows "int (length (holes b)) = numHoles b \<and> winSize b = numHoles b - 2"
proof -
  have "numHoles b = (n\<^sup>2 + n) div 2" "winSize b = (n\<^sup>2 + n) div 2 - 2"
    using assms(2) by (simp_all add: board_of_size_def Board_def Let_def)
  then show ?thesis
    using int_tri [OF assms(1)] board_of_size_length [OF assms(2)] by simp
qed

lemma legal_step_board:
  assumes bs: "board_of_size n b" and mv: "mv \<in> set (enumerated b)"
  shows "\<exists>b'. apply_move b mv = Inr b' \<and> board_of_size n b' \<and>
           count_pegs b' + 1 = count_pegs b \<and> route b' = route b @ [(fst mv, snd (snd mv))]"
proof -
  obtain origin m d where mvd: "mv = (origin, m, d)" by (cases mv)
  from legal_step [OF board_of_size_geom [OF bs] mv [unfolded mvd]] obtain b' where
    b': "apply_move b (origin, m, d) = Inr b'" "route b' = route b @ [(origin, d)]"
      "winSize b' = winSize b" "numHoles b' = numHoles b" "size_board b' = size_board b"
      "map pos (holes b') = map pos (holes b)" "map moves (holes b') = map moves (holes b)"
      "count_pegs b' + 1 = count_pegs b"
    by blast
  from b'(3-7) bs have "board_of_size n b'" by (simp add: board_of_size_def)
  with b'(1,2,8) mvd show ?thesis by simp
qed

lemma jumps_invariant:
  "board_of_size n b0 \<Longrightarrow> jumps b0 ms = Some b \<Longrightarrow>
     board_of_size n b \<and> length (route b) = length (route b0) + length ms \<and>
     count_pegs b + length ms = count_pegs b0"
proof (induction ms arbitrary: b0)
  case Nil
  then show ?case by simp
next
  case (Cons mv ms)
  have vm: "valid_moves b0 = Inr (enumerated b0)"
    by (rule valid_moves_eq_spec [OF board_of_size_geom [OF Cons.prems(1)]])
  from Cons.prems(2) vm have mv: "mv \<in> set (enumerated b0)"
    by (simp split: if_splits)
  from legal_step_board [OF Cons.prems(1) mv] obtain b1 where
    b1: "apply_move b0 mv = Inr b1" "board_of_size n b1"
      "count_pegs b1 + 1 = count_pegs b0" "route b1 = route b0 @ [(fst mv, snd (snd mv))]"
    by blast
  from Cons.prems(2) vm mv b1(1) have "jumps b1 ms = Some b" by simp
  from Cons.IH [OF b1(2) this] b1(3,4) show ?case by simp
qed

text \<open>
  Claim C2 (invariants of the route). From a board of size \<open>n\<close> with an empty route and
  exactly one peg removed, after any sequence of legal jumps the route is as long as the number
  of jumps, and a state whose route has length \<open>winSize = numHoles - 2\<close> has exactly one peg.
\<close>

theorem route_length_and_last_peg:
  assumes "board_of_size n b0" and "route b0 = []"
    and "count_pegs b0 + 1 = length (holes b0)"
    and "jumps b0 ms = Some b"
  shows "length (route b) = length ms \<and> winSize b = numHoles b - 2 \<and>
         (int (length (route b)) = winSize b \<longrightarrow> count_pegs b = 1)"
proof -
  from jumps_invariant [OF assms(1,4)] have
    inv: "board_of_size n b" "length (route b) = length ms"
      "count_pegs b + length ms = count_pegs b0"
    using assms(2) by simp_all
  have len: "length (holes b) = length (holes b0)"
    using board_of_size_length [OF inv(1)] board_of_size_length [OF assms(1)] by simp
  from assms(3) have "0 < length (holes b0)" by linarith
  then have "0 < tri (nat n)" using board_of_size_length [OF assms(1)] by simp
  then have n: "0 \<le> n" by (cases "0 \<le> n") simp_all
  from board_of_size_numHoles [OF n inv(1)] have
    nh: "int (length (holes b)) = numHoles b" "winSize b = numHoles b - 2" by simp_all
  have "count_pegs b = 1" if "int (length (route b)) = winSize b"
    using that nh inv(2,3) assms(3) len by linarith
  with inv(2) nh(2) show ?thesis by simp
qed

theorem route_length_and_last_peg_witness:
  "board_of_size 5 main_board \<and> route main_board = [] \<and>
   count_pegs main_board + 1 = length (holes main_board) \<and>
   (\<exists>b. jumps main_board missed_jumps = Some b \<and> length (route b) = length missed_jumps \<and>
        int (length (route b)) = winSize b \<and> count_pegs b = 1)"
proof -
  have h1: "board_of_size 5 main_board" by code_simp
  have h2: "route main_board = []" by code_simp
  have h3: "count_pegs main_board + 1 = length (holes main_board)" by code_simp
  have "jumps main_board missed_jumps \<noteq> None" by code_simp
  then obtain b where h4: "jumps main_board missed_jumps = Some b" by blast
  have "winSize main_board = 13" by code_simp
  moreover have "length missed_jumps = 13" by code_simp
  moreover have "winSize b = winSize main_board"
    using jumps_invariant [OF h1 h4] h1 by (simp add: board_of_size_def)
  ultimately show ?thesis
    using route_length_and_last_peg [OF h1 h2 h3 h4] h1 h2 h3 h4 by simp
qed

text \<open>
  Claim C6 (the search terminates). On a board of any size \<open>n\<close> with any pegs, any route and
  any flag, the search returns normally as soon as the depth bound exceeds the number of pegs:
  every jump removes one peg, so the recursion is never deeper than the number of pegs.
\<close>

theorem find_solutions_terminates:
  assumes "board_of_size n b" and "count_pegs b < k"
  shows "\<exists>st'. find_solutions k b sh st = Some (Inr st')"
  using find_solutions_total [OF board_of_size_geom [OF assms(1)] assms(2)] .

theorem find_solutions_terminates_witness:
  "board_of_size 5 main_board \<and> count_pegs main_board < 15 \<and>
   (\<exists>st'. find_solutions 15 main_board True initial_state = Some (Inr st'))"
proof -
  have h1: "board_of_size 5 main_board" by code_simp
  have h2: "count_pegs main_board < 15" by code_simp
  from find_solutions_terminates [OF h1 h2] h1 h2 show ?thesis by blast
qed

subsection \<open>One jump of the engine\<close>

text \<open>
  Claim C5 (effect of an applied move). A move that the enumerator returns on a board of size
  \<open>n\<close> is applied without error: origin and mid held a peg before and hold none after, dest
  held none before and holds one after, the pair \<open>(origin, dest)\<close> is appended to the route,
  which grows by one, and every other hole is unchanged.
\<close>

theorem applied_move_effect:
  assumes "board_of_size n b" and "valid_moves b = Inr mvs" and "(origin, mid, dest) \<in> set mvs"
  shows "\<exists>b'. apply_move b (origin, mid, dest) = Inr b' \<and>
           0 \<le> origin \<and> 0 \<le> mid \<and> 0 \<le> dest \<and>
           has_peg (holes b ! nat origin) \<and> \<not> has_peg (holes b' ! nat origin) \<and>
           has_peg (holes b ! nat mid) \<and> \<not> has_peg (holes b' ! nat mid) \<and>
           \<not> has_peg (holes b ! nat dest) \<and> has_peg (holes b' ! nat dest) \<and>
           route b' = route b @ [(origin, dest)] \<and>
           length (route b') = length (route b) + 1 \<and>
           length (holes b') = length (holes b) \<and>
           (\<forall>i < length (holes b). i \<noteq> nat origin \<longrightarrow> i \<noteq> nat mid \<longrightarrow> i \<noteq> nat dest \<longrightarrow>
              holes b' ! i = holes b ! i)"
proof -
  note g = board_of_size_geom [OF assms(1)]
  from assms(2,3) valid_moves_eq_spec [OF g] have mv: "(origin, mid, dest) \<in> set (enumerated b)"
    by simp
  note before = legal_move_facts [OF g mv]
  from legal_step [OF g mv] obtain b' where
    b': "apply_move b (origin, mid, dest) = Inr b'" "route b' = route b @ [(origin, dest)]"
      "map pos (holes b') = map pos (holes b)"
      "\<not> has_peg (holes b' ! nat origin)" "\<not> has_peg (holes b' ! nat mid)"
      "has_peg (holes b' ! nat dest)"
      "\<forall>i < length (holes b). i \<noteq> nat origin \<longrightarrow> i \<noteq> nat mid \<longrightarrow> i \<noteq> nat dest \<longrightarrow>
              holes b' ! i = holes b ! i"
    by blast
  from b'(3) have "length (holes b') = length (holes b)" by (rule map_eq_imp_length_eq)
  with b' before show ?thesis by simp
qed

theorem applied_move_effect_witness:
  "board_of_size 5 main_board \<and> valid_moves main_board = Inr [(3, 1, 0), (5, 2, 0)] \<and>
   (3, 1, 0) \<in> set [(3, 1, 0), (5, 2, 0) :: move] \<and>
   (\<exists>b'. apply_move main_board (3, 1, 0) = Inr b' \<and>
      has_peg (holes main_board ! 3) \<and> \<not> has_peg (holes b' ! 3) \<and>
      has_peg (holes main_board ! 1) \<and> \<not> has_peg (holes b' ! 1) \<and>
      \<not> has_peg (holes main_board ! 0) \<and> has_peg (holes b' ! 0) \<and>
      route b' = [(3, 0)])"
proof -
  have h1: "board_of_size 5 main_board" by code_simp
  have h2: "valid_moves main_board = Inr [(3, 1, 0), (5, 2, 0)]" by code_simp
  have h3: "(3, 1, 0) \<in> set [(3, 1, 0), (5, 2, 0) :: move]" by simp
  have h4: "route main_board = []" by code_simp
  from applied_move_effect [OF h1 h2 h3] h1 h2 h3 h4 show ?thesis
    by (simp add: eval_nat_numeral) blast
qed

subsection \<open>The board of one hole\<close>

lemma Board_1: "holes (Board 1) = [Hole 1 0 0 0] \<and> numHoles (Board 1) = 1 \<and> winSize (Board 1) = - 1"
  by (simp add: Board_def Let_def py_range_def)

text \<open>
  Claim C9 (the board of size 1). With \<open>numHoles = 1\<close> and \<open>winSize = -1\<close>, whatever the peg of
  the single hole, the search returns at once for every positive depth bound: no error, the
  run counter is one higher, nothing is printed and no solution is counted.
\<close>

theorem single_hole_board:
  assumes "board_of_size 1 b"
  shows "numHoles b = 1 \<and> winSize b = - 1 \<and> length (holes b) = 1 \<and>
         find_solutions (Suc k) b sh st =
           Some (Inr (st\<lparr>num_of_function_runs := num_of_function_runs st + 1\<rparr>))"
proof -
  from assms have mv: "map moves (holes b) = [[]]"
    and nh: "numHoles b = 1" "winSize b = - 1"
    by (simp_all add: board_of_size_def Board_1 Hole_moves)
  from mv have len: "length (holes b) = 1"
    using map_eq_imp_length_eq [of moves "holes b" id "[[]]"] by simp
  have "moves h = []" if "h \<in> set (holes b)" for h
  proof -
    from that have "moves h \<in> set (map moves (holes b))" by simp
    then show ?thesis unfolding mv by simp
  qed
  then have "(origin, m, d) \<notin> set (enumerated b)" for origin m d
    unfolding enumerated_set by simp
  then have "enumerated b = []" by (cases "enumerated b") auto
  then have "valid_moves b = Inr []"
    using valid_moves_eq_spec [OF board_of_size_geom [OF assms]] by simp
  then show ?thesis using nh len by (simp add: Let_def)
qed

theorem single_hole_board_witness:
  "board_of_size 1 ((Board 1)\<lparr>holes := [(Hole 1 0 0 0)\<lparr>has_peg := False\<rparr>]\<rparr>) \<and>
   find_solutions 1 ((Board 1)\<lparr>holes := [(Hole 1 0 0 0)\<lparr>has_peg := False\<rparr>]\<rparr>) True initial_state =
     Some (Inr \<lparr>num_of_solutions = 0, num_of_function_runs = 1, printed = []\<rparr>)"
proof -
  have h: "board_of_size 1 ((Board 1)\<lparr>holes := [(Hole 1 0 0 0)\<lparr>has_peg := False\<rparr>]\<rparr>)"
    by code_simp
  from single_hole_board [OF h, of 0 True initial_state] h show ?thesis
    by (simp add: initial_state_def)
qed

subsection \<open>Indices\<close>

text \<open>
  Claim C10 (indices stay in bounds). On a board of size \<open>n \<ge> 1\<close>, with any pegs, the hole
  list has \<open>numHoles\<close> entries, every stored candidate pair has both components in
  \<open>[0, numHoles)\<close>, the enumerator returns without an index error, and every move it returns
  has origin, mid and dest in \<open>[0, numHoles)\<close> and is applied without an index error.
\<close>

theorem candidate_indices_in_bounds:
  assumes "1 \<le> n" and "board_of_size n b"
  shows "int (length (holes b)) = numHoles b \<and>
         (\<forall>h \<in> set (holes b). \<forall>(m, d) \<in> set (moves h).
            0 \<le> m \<and> m < numHoles b \<and> 0 \<le> d \<and> d < numHoles b) \<and>
         (\<exists>mvs. valid_moves b = Inr mvs \<and>
            (\<forall>(origin, mid, dest) \<in> set mvs.
               0 \<le> origin \<and> origin < numHoles b \<and> 0 \<le> mid \<and> mid < numHoles b \<and>
               0 \<le> dest \<and> dest < numHoles b \<and> (\<exists>b'. apply_move b (origin, mid, dest) = Inr b')))"
proof -
  note g = board_of_size_geom [OF assms(2)]
  from assms(1) have "0 \<le> n" by simp
  from board_of_size_numHoles [OF this assms(2)] have
    nh: "int (length (holes b)) = numHoles b" by simp
  have cand: "0 \<le> m \<and> m < numHoles b \<and> 0 \<le> d \<and> d < numHoles b"
    if "h \<in> set (holes b)" "(m, d) \<in> set (moves h)" for h m d
    using geom_ok_in_range [OF g that(1)] that(2) nh unfolding in_range_moves_def by auto
  have mvs: "0 \<le> origin \<and> origin < numHoles b \<and> 0 \<le> mid \<and> mid < numHoles b \<and>
             0 \<le> dest \<and> dest < numHoles b \<and> (\<exists>b'. apply_move b (origin, mid, dest) = Inr b')"
    if "(origin, mid, dest) \<in> set (enumerated b)" for origin mid dest
    using legal_move_facts [OF g that] legal_step [OF g that] nh by auto
  from nh cand mvs valid_moves_eq_spec [OF g] show ?thesis by auto
qed

theorem candidate_indices_in_bounds_witness:
  "(1::int) \<le> 5 \<and> board_of_size 5 main_board \<and> int (length (holes main_board)) = 15 \<and>
   numHoles main_board = 15 \<and> (\<exists>mvs. valid_moves main_board = Inr mvs)"
proof -
  have h1: "(1::int) \<le> 5" by simp
  have h2: "board_of_size 5 main_board" by code_simp
  have h3: "numHoles main_board = 15" by code_simp
  from candidate_indices_in_bounds [OF h1 h2] have
    "int (length (holes main_board)) = numHoles main_board"
    "\<exists>mvs. valid_moves main_board = Inr mvs" by blast+
  with h1 h2 h3 show ?thesis by simp
qed

subsection \<open>Positions\<close>

lemma positionOf_tri: "positionOf (int r) (int off) = int (tri r + off)"
proof -
  have "int r * (int r + 1) = 2 * int (tri r)"
    using tri_closed [of r] by (metis of_nat_mult of_nat_add of_nat_1 of_nat_numeral)
  then show ?thesis by (simp add: positionOf_def)
qed

lemma set_py_range: "set (py_range k) = {i. 0 \<le> i \<and> i < k}"
proof -
  have "i \<in> int ` {0..<nat k} \<longleftrightarrow> 0 \<le> i \<and> i < k" for i
  proof
    assume "i \<in> int ` {0..<nat k}"
    then obtain j where "j < nat k" "i = int j" by auto
    then show "0 \<le> i \<and> i < k" by simp
  next
    assume "0 \<le> i \<and> i < k"
    then have "nat i < nat k" "i = int (nat i)" by simp_all
    then show "i \<in> int ` {0..<nat k}" by (metis atLeastLessThan_iff imageI zero_le)
  qed
  then show ?thesis by (auto simp: py_range_def)
qed

lemma set_loop_coords:
  "set (loop_coords n) = {(row, offset). 0 \<le> offset \<and> offset \<le> row \<and> row < n}"
proof -
  have "(row, offset) \<in> set (loop_coords n) \<longleftrightarrow> 0 \<le> offset \<and> offset \<le> row \<and> row < n"
    for row offset
  proof
    assume "(row, offset) \<in> set (loop_coords n)"
    then obtain r where "r \<in> set (py_range n)" "(row, offset) \<in> Pair r ` set (py_range (r + 1))"
      unfolding loop_coords_def by auto
    then show "0 \<le> offset \<and> offset \<le> row \<and> row < n"
      by (auto simp: set_py_range)
  next
    assume a: "0 \<le> offset \<and> offset \<le> row \<and> row < n"
    then have "row \<in> set (py_range n)" "offset \<in> set (py_range (row + 1))"
      by (simp_all add: set_py_range)
    then show "(row, offset) \<in> set (loop_coords n)"
      unfolding loop_coords_def by auto
  qed
  then show ?thesis by auto
qed

lemma holes_Board_coords:
  "holes (Board n) =
     map (\<lambda>(row, offset). Hole n (positionOf row offset) row offset) (loop_coords n)"
proof -
  have "map (\<lambda>(row, offset). Hole n (positionOf row offset) row offset)
          (map (\<lambda>offset. (int r, offset)) (py_range (int r + 1))) = row_holes n r" for r
  proof -
    have "nat (int r + 1) = Suc r" by simp
    then show ?thesis
      by (simp add: py_range_def row_holes_def positionOf_tri del: upt_Suc)
  qed
  then show ?thesis
    by (simp add: holes_Board rows_upto_def loop_coords_def map_concat py_range_def comp_def)
qed

lemma tri_unique:
  assumes "off \<le> r" and "off' \<le> r'" and "tri r + off = tri r' + off'"
  shows "r = r' \<and> off = off'"
proof -
  have False if "r < r'" "off \<le> r" "tri r + off = tri r' + off'" for r r' off off'
  proof -
    from that(1) have "tri (Suc r) \<le> tri r'" by (intro tri_mono) simp
    with that(2,3) show False by simp
  qed
  from this [of r r' off off'] this [of r' r off' off] assms
  have "r = r'" by (metis linorder_neqE_nat)
  with assms(3) show ?thesis by simp
qed

lemma positionOf_bij:
  assumes "0 \<le> n"
  shows "bij_betw (\<lambda>(row, offset). positionOf row offset)
           {(row, offset). 0 \<le> offset \<and> offset \<le> row \<and> row < n} {0..<(n\<^sup>2 + n) div 2}"
proof (rule bij_betwI')
  fix x y :: "int \<times> int"
  assume x: "x \<in> {(row, offset). 0 \<le> offset \<and> offset \<le> row \<and> row < n}"
    and y: "y \<in> {(row, offset). 0 \<le> offset \<and> offset \<le> row \<and> row < n}"
  obtain r off where xr: "x = (int r, int off)" "off \<le> r"
    using x by (cases x) (auto, metis nat_le_iff nat_0_le order_trans zle_int)
  obtain r' off' where yr: "y = (int r', int off')" "off' \<le> r'"
    using y by (cases y) (auto, metis nat_le_iff nat_0_le order_trans zle_int)
  show "((case x of (row, offset) \<Rightarrow> positionOf row offset) =
         (case y of (row, offset) \<Rightarrow> positionOf row offset)) = (x = y)"
    using tri_unique [OF xr(2) yr(2)] by (auto simp: xr(1) yr(1) positionOf_tri)
next
  fix x :: "int \<times> int"
  assume x: "x \<in> {(row, offset). 0 \<le> offset \<and> offset \<le> row \<and> row < n}"
  obtain r off where xr: "x = (int r, int off)" "off \<le> r"
    using x by (cases x) (auto, metis nat_le_iff nat_0_le order_trans zle_int)
  with x have "r < nat n" by simp
  then have "tri (Suc r) \<le> tri (nat n)" by (intro tri_mono) simp
  with xr(2) have "tri r + off < tri (nat n)" by simp
  then have "int (tri r + off) < (n\<^sup>2 + n) div 2"
    using int_tri [OF assms] by linarith
  then show "(case x of (row, offset) \<Rightarrow> positionOf row offset) \<in> {0..<(n\<^sup>2 + n) div 2}"
    by (simp add: xr(1) positionOf_tri)
next
  fix p :: int
  assume "p \<in> {0..<(n\<^sup>2 + n) div 2}"
  then have "0 \<le> p" "p < int (tri (nat n))"
    using int_tri [OF assms] by simp_all
  then have "nat p < tri (nat n)" by linarith
  from tri_decompose [OF this] obtain r off where
    ro: "r < nat n" "off \<le> r" "nat p = tri r + off" by blast
  from ro(3) \<open>0 \<le> p\<close> have "p = positionOf (int r) (int off)"
    unfolding positionOf_tri by linarith
  moreover have "(int r, int off) \<in> {(row, offset). 0 \<le> offset \<and> offset \<le> row \<and> row < n}"
    using ro by simp
  ultimately show "\<exists>x \<in> {(row, offset). 0 \<le> offset \<and> offset \<le> row \<and> row < n}.
      p = (case x of (row, offset) \<Rightarrow> positionOf row offset)"
    by (intro bexI [of _ "(int r, int off)"]) simp_all
qed

text \<open>
  Claim C7 (positions). For \<open>n \<ge> 1\<close> the constructor builds the holes in row-major order of
  \<open>(row, offset)\<close>, \<open>0 \<le> offset \<le> row < n\<close>, the hole of \<open>(row, offset)\<close> being constructed with
  position \<open>row * (row + 1) div 2 + offset\<close>; the hole at index \<open>i\<close> has position \<open>i\<close>, there
  are \<open>numHoles = n * (n + 1) div 2\<close> holes, and the position formula is a bijection between
  the valid pairs and \<open>[0, numHoles)\<close>.
\<close>

theorem positions_row_major_bijection:
  assumes "1 \<le> n"
  shows "holes (Board n) =
           map (\<lambda>(row, offset). Hole n (positionOf row offset) row offset) (loop_coords n) \<and>
         set (loop_coords n) = {(row, offset). 0 \<le> offset \<and> offset \<le> row \<and> row < n} \<and>
         numHoles (Board n) = n * (n + 1) div 2 \<and>
         int (length (holes (Board n))) = numHoles (Board n) \<and>
         (\<forall>i < length (holes (Board n)). pos (holes (Board n) ! i) = int i) \<and>
         bij_betw (\<lambda>(row, offset). positionOf row offset)
           {(row, offset). 0 \<le> offset \<and> offset \<le> row \<and> row < n} {0..<numHoles (Board n)}"
proof -
  from assms have n: "0 \<le> n" by simp
  have nh: "numHoles (Board n) = (n\<^sup>2 + n) div 2"
    by (simp add: Board_def Let_def)
  have nh': "numHoles (Board n) = n * (n + 1) div 2"
    unfolding nh by (simp add: power2_eq_square algebra_simps)
  have len: "int (length (holes (Board n))) = numHoles (Board n)"
    unfolding nh using int_tri [OF n] by (simp add: holes_Board length_rows_upto)
  have "\<forall>i < length (holes (Board n)). pos (holes (Board n) ! i) = int i"
    using geom_ok_pos [OF geom_ok_Board] by blast
  with holes_Board_coords set_loop_coords nh' len positionOf_bij [OF n] show ?thesis
    unfolding nh by blast
qed

theorem positions_row_major_bijection_witness:
  "(1::int) \<le> 3 \<and> numHoles (Board 3) = 6 \<and> int (length (holes (Board 3))) = 6 \<and>
   bij_betw (\<lambda>(row, offset). positionOf row offset)
     {(row, offset). 0 \<le> offset \<and> offset \<le> row \<and> row < 3} {0..<6}"
proof -
  have h: "(1::int) \<le> 3" by simp
  have nh: "numHoles (Board 3) = 6" by code_simp
  from positions_row_major_bijection [OF h] have
    "int (length (holes (Board 3))) = numHoles (Board 3)"
    "bij_betw (\<lambda>(row, offset). positionOf row offset)
       {(row, offset). 0 \<le> offset \<and> offset \<le> row \<and> row < 3} {0..<numHoles (Board 3)}"
    by blast+
  then show ?thesis unfolding nh using nh by simp
qed

subsection \<open>Candidate moves\<close>

lemma py_get_nat: "i < length xs \<Longrightarrow> py_get xs (int i) = Inr (xs ! i)"
  using py_get_in_range [of "int i" xs] by simp

lemma board_hole_at:
  assumes bs: "board_of_size n b" and r: "r < nat n" and off: "off \<le> r"
  shows "tri r + off < length (holes b) \<and>
         pos (holes b ! (tri r + off)) = int (tri r + off) \<and>
         moves (holes b ! (tri r + off)) = candidateMoves n (int (tri r + off)) (int r) (int off)"
proof -
  let ?i = "tri r + off"
  from r have "tri (Suc r) \<le> tri (nat n)" by (intro tri_mono) simp
  with off have i: "?i < length (holes b)"
    using board_of_size_length [OF bs] by simp
  then have i': "?i < length (holes (Board n))"
    using board_of_size_length [OF bs] by (simp add: holes_Board length_rows_upto)
  from bs have "map moves (holes b) = map moves (holes (Board n))"
    by (simp add: board_of_size_def)
  then have "map moves (holes b) ! ?i = map moves (holes (Board n)) ! ?i" by simp
  then have "moves (holes b ! ?i) = moves (holes (Board n) ! ?i)"
    using i i' by simp
  also have "holes (Board n) ! ?i = Hole n (int ?i) (int r) (int off)"
    unfolding holes_Board by (rule rows_upto_nth [OF r off])
  finally have "moves (holes b ! ?i) = candidateMoves n (int ?i) (int r) (int off)"
    by (simp add: Hole_moves candidateMoves_def)
  with i geom_ok_pos [OF board_of_size_geom [OF bs] i] show ?thesis by simp
qed

lemma candidateMoves_length:
  "even (length (candidateMoves n p row offset)) \<and>
   length (candidateMoves n p row offset) \<in> {0, 2, 4, 6}"
  by (simp add: candidateMoves_def)

text \<open>
  Claim C4 (candidate moves of a hole). On a board of size \<open>n\<close> the hole at \<open>(row, offset)\<close>
  is read at index \<open>positionOf row offset\<close>, carries that position, and its stored list is
  exactly the outcome of the three independent tests (east and northeast, west and northwest,
  the two south moves), in that order; so its length is even and one of 0, 2, 4, 6, and this
  holds for every hole of the board.
\<close>

theorem hole_candidate_moves:
  assumes "board_of_size n b" and "0 \<le> offset" and "offset \<le> row" and "row < n"
  shows "(\<exists>h. py_get (holes b) (positionOf row offset) = Inr h \<and>
              pos h = positionOf row offset \<and>
              moves h = candidateMoves n (pos h) row offset \<and>
              even (length (moves h)) \<and> length (moves h) \<in> {0, 2, 4, 6}) \<and>
         (\<forall>h \<in> set (holes b). even (length (moves h)) \<and> length (moves h) \<in> {0, 2, 4, 6})"
proof
  let ?r = "nat row" and ?off = "nat offset"
  from assms(2-4) have ro: "?r < nat n" "?off \<le> ?r" "int ?r = row" "int ?off = offset"
    by simp_all
  from board_hole_at [OF assms(1) ro(1,2)] have
    h: "tri ?r + ?off < length (holes b)"
       "pos (holes b ! (tri ?r + ?off)) = int (tri ?r + ?off)"
       "moves (holes b ! (tri ?r + ?off)) = candidateMoves n (int (tri ?r + ?off)) row offset"
    by (simp_all only: ro(3,4))
  have p: "positionOf row offset = int (tri ?r + ?off)"
    using positionOf_tri [of ?r ?off] by (simp only: ro(3,4))
  have "py_get (holes b) (positionOf row offset) = Inr (holes b ! (tri ?r + ?off))"
    unfolding p by (rule py_get_nat [OF h(1)])
  with h(2,3) p candidateMoves_length [of n "int (tri ?r + ?off)" row offset]
  show "\<exists>h. py_get (holes b) (positionOf row offset) = Inr h \<and>
              pos h = positionOf row offset \<and>
              moves h = candidateMoves n (pos h) row offset \<and>
              even (length (moves h)) \<and> length (moves h) \<in> {0, 2, 4, 6}"
    by simp
next
  show "\<forall>h \<in> set (holes b). even (length (moves h)) \<and> length (moves h) \<in> {0, 2, 4, 6}"
  proof
    fix h
    assume "h \<in> set (holes b)"
    then obtain i where i: "i < length (holes b)" "h = holes b ! i"
      by (auto simp: in_set_conv_nth)
    from i(1) have "i < tri (nat n)" using board_of_size_length [OF assms(1)] by simp
    from tri_decompose [OF this] obtain r off where ro: "r < nat n" "off \<le> r" "i = tri r + off"
      by blast
    from board_hole_at [OF assms(1) ro(1,2)] i(2) ro(3)
    have "moves h = candidateMoves n (int i) (int r) (int off)" by simp
    then show "even (length (moves h)) \<and> length (moves h) \<in> {0, 2, 4, 6}"
      using candidateMoves_length by simp
  qed
qed

theorem hole_candidate_moves_witness:
  "board_of_size 5 main_board \<and> (0::int) \<le> 0 \<and> (0::int) \<le> 2 \<and> (2::int) < 5 \<and>
   (\<exists>h. py_get (holes main_board) 3 = Inr h \<and> pos h = 3 \<and>
        moves h = [(4, 5), (1, 0), (6, 10), (7, 12)])"
proof -
  have h1: "board_of_size 5 main_board" by code_simp
  have h2: "(0::int) \<le> 0" and h3: "(0::int) \<le> 2" and h4: "(2::int) < 5" by simp_all
  have p: "positionOf 2 0 = 3" by (simp add: positionOf_def)
  have c: "candidateMoves 5 3 2 0 = [(4, 5), (1, 0), (6, 10), (7, 12)]"
    by (simp add: candidateMoves_def)
  from hole_candidate_moves [OF h1 h2 h3 h4] obtain h where
    "py_get (holes main_board) (positionOf 2 0) = Inr h" "pos h = positionOf 2 0"
    "moves h = candidateMoves 5 (pos h) 2 0" by blast
  with p c h1 show ?thesis by simp
qed

subsection \<open>The enumerator against the specification\<close>

lemma enumerated_eq_validMoves_spec:
  assumes bs: "board_of_size n b"
  shows "enumerated b = validMoves_spec n b"
proof -
  let ?F = "\<lambda>h. if has_peg h
                then map (\<lambda>(mid, dest). (pos h, mid, dest))
                       (filter (\<lambda>(mid, dest). has_peg (holes b ! nat mid) \<and>
                                               \<not> has_peg (holes b ! nat dest)) (moves h))
                else []"
  let ?G = "\<lambda>(row, offset).
                let position = positionOf row offset in
                if has_peg (holes b ! nat position)
                then map (\<lambda>(mid, dest). (position, mid, dest))
                       (filter (\<lambda>(mid, dest). has_peg (holes b ! nat mid) \<and>
                                               \<not> has_peg (holes b ! nat dest))
                          (candidateMoves n position row offset))
                else []"
  have lenB: "length (holes (Board n)) = length (loop_coords n)"
    using arg_cong [OF holes_Board_coords [of n], of length] by simp
  have len: "length (holes b) = length (loop_coords n)"
    using board_of_size_length [OF bs] lenB by (simp add: holes_Board length_rows_upto)
  have "map ?F (holes b) = map ?G (loop_coords n)"
  proof (rule nth_equalityI)
    show "length (map ?F (holes b)) = length (map ?G (loop_coords n))"
      using len by simp
  next
    fix i
    assume "i < length (map ?F (holes b))"
    then have i: "i < length (holes b)" by simp
    then have ic: "i < length (loop_coords n)" and iB: "i < length (holes (Board n))"
      using len lenB by simp_all
    obtain row offset where ro: "loop_coords n ! i = (row, offset)"
      by (cases "loop_coords n ! i")
    have hB: "holes (Board n) ! i = Hole n (positionOf row offset) row offset"
      using arg_cong [OF holes_Board_coords [of n], of "\<lambda>xs. xs ! i"] ic ro by simp
    have "pos (holes (Board n) ! i) = int i"
      by (rule geom_ok_pos [OF geom_ok_Board iB])
    then have p: "positionOf row offset = int i"
      unfolding hB by (simp add: Hole_pos)
    have pb: "pos (holes b ! i) = int i"
      by (rule geom_ok_pos [OF board_of_size_geom [OF bs] i])
    from bs have "map moves (holes b) ! i = map moves (holes (Board n)) ! i"
      by (simp add: board_of_size_def)
    then have "moves (holes b ! i) = moves (holes (Board n) ! i)"
      using i iB by simp
    then have mb: "moves (holes b ! i) = candidateMoves n (int i) row offset"
      unfolding hB p by (simp add: Hole_moves candidateMoves_def)
    have "?F (holes b ! i) = ?G (row, offset)"
      by (simp add: p pb mb Let_def)
    then show "map ?F (holes b) ! i = map ?G (loop_coords n) ! i"
      using i ic ro by simp
  qed
  then show ?thesis
    unfolding enumerated_def validMoves_spec_def by (rule arg_cong)
qed

text \<open>
  Claim C3 (the move enumerator). On every board of size \<open>n\<close> the enumerator returns, without
  error, the list the specification describes: holes in ascending position order, the
  candidates of a hole in generation order, a triple being emitted exactly when origin, mid
  hold pegs and dest does not. Its members are exactly the triples \<open>(origin, mid, dest)\<close> with
  origin a hole with a peg, \<open>(mid, dest)\<close> one of origin's stored candidates, mid with a peg and
  dest without.
\<close>

theorem valid_moves_enumeration:
  assumes "board_of_size n b"
  shows "valid_moves b = Inr (validMoves_spec n b) \<and>
         (\<forall>origin mid dest.
            (origin, mid, dest) \<in> set (validMoves_spec n b) \<longleftrightarrow>
              0 \<le> origin \<and> origin < int (length (holes b)) \<and>
              has_peg (holes b ! nat origin) \<and>
              (mid, dest) \<in> set (moves (holes b ! nat origin)) \<and>
              has_peg (holes b ! nat mid) \<and> \<not> has_peg (holes b ! nat dest))"
proof -
  note g = board_of_size_geom [OF assms]
  note eq = enumerated_eq_validMoves_spec [OF assms]
  from valid_moves_eq_spec [OF g] enumerated_mem [OF g] show ?thesis
    unfolding eq by blast
qed

theorem valid_moves_enumeration_witness:
  "board_of_size 5 main_board \<and> valid_moves main_board = Inr [(3, 1, 0), (5, 2, 0)] \<and>
   validMoves_spec 5 main_board = [(3, 1, 0), (5, 2, 0)]"
proof -
  have h: "board_of_size 5 main_board" by code_simp
  have v: "valid_moves main_board = Inr [(3, 1, 0), (5, 2, 0)]" by code_simp
  from valid_moves_enumeration [OF h] have "valid_moves main_board = Inr (validMoves_spec 5 main_board)"
    by blast
  with h v show ?thesis by simp
qed

subsection \<open>Building the initial board\<close>




end
